theory Spec2Isabelle
  imports Complex_Main
begin

section \<open>JavaScript numbers\<close>

text \<open>
  The component computes with JavaScript numbers. A number is modelled as a finite
  value, negative zero, one of the two infinities, or NaN; \<open>Fin 0\<close> is \<open>+0\<close>. The
  operations below are the ones \<open>animate\<close> uses, with the results ECMAScript gives
  them on zeros of either sign, on infinities and on NaN.

  Finite values are exact reals: the rounding of each result to the nearest binary64
  value and the overflow to an infinity are not modelled. Rounding to nearest keeps the
  order of results and leaves a representable result as it is, so the theorems on the
  values of a counter state their order, their bounds and the value at the end, and
  not which integer a step in between shows.
\<close>

datatype jsnum = Fin real | NegZero | PosInf | NegInf | NaN

fun js_isNaN :: "jsnum \<Rightarrow> bool" where
  "js_isNaN NaN = True"
| "js_isNaN _ = False"

fun js_finite :: "jsnum \<Rightarrow> bool" where
  "js_finite (Fin x) = True"
| "js_finite NegZero = True"
| "js_finite _ = False"

text \<open>The sign bit, whether the number is a zero, and the value of a finite number.\<close>

fun js_negative :: "jsnum \<Rightarrow> bool" where
  "js_negative (Fin x) = (x < 0)"
| "js_negative NegZero = True"
| "js_negative NegInf = True"
| "js_negative _ = False"

fun js_zero :: "jsnum \<Rightarrow> bool" where
  "js_zero (Fin x) = (x = 0)"
| "js_zero NegZero = True"
| "js_zero _ = False"

fun js_val :: "jsnum \<Rightarrow> real" where
  "js_val (Fin x) = x"
| "js_val _ = 0"

definition signed_zero :: "bool \<Rightarrow> jsnum" where
  "signed_zero neg = (if neg then NegZero else Fin 0)"

definition signed_inf :: "bool \<Rightarrow> jsnum" where
  "signed_inf neg = (if neg then NegInf else PosInf)"

text \<open>A finite product or quotient: a zero result takes the sign of the operation.\<close>

definition finite_result :: "bool \<Rightarrow> real \<Rightarrow> jsnum" where
  "finite_result neg r = (if r = 0 then signed_zero neg else Fin r)"

text \<open>
  Addition: a sum of zeros is \<open>-0\<close> only if both are, and a sum of opposite numbers is
  \<open>+0\<close>. Subtraction adds the negated operand.
\<close>

fun js_add :: "jsnum \<Rightarrow> jsnum \<Rightarrow> jsnum" where
  "js_add NaN _ = NaN"
| "js_add _ NaN = NaN"
| "js_add PosInf NegInf = NaN"
| "js_add NegInf PosInf = NaN"
| "js_add PosInf _ = PosInf"
| "js_add _ PosInf = PosInf"
| "js_add NegInf _ = NegInf"
| "js_add _ NegInf = NegInf"
| "js_add NegZero NegZero = NegZero"
| "js_add NegZero (Fin y) = Fin y"
| "js_add (Fin x) NegZero = Fin x"
| "js_add (Fin x) (Fin y) = Fin (x + y)"

fun js_neg :: "jsnum \<Rightarrow> jsnum" where
  "js_neg (Fin x) = (if x = 0 then NegZero else Fin (- x))"
| "js_neg NegZero = Fin 0"
| "js_neg PosInf = NegInf"
| "js_neg NegInf = PosInf"
| "js_neg NaN = NaN"

definition js_sub :: "jsnum \<Rightarrow> jsnum \<Rightarrow> jsnum" where
  "js_sub a b = js_add a (js_neg b)"

text \<open>
  Multiplication and division: the sign of the result is the exclusive or of the signs
  of the operands; an infinity times a zero, a zero by a zero and an infinity by an
  infinity are NaN; a nonzero finite number by a zero is an infinity.
\<close>

definition js_mul :: "jsnum \<Rightarrow> jsnum \<Rightarrow> jsnum" where
  "js_mul a b =
     (if js_isNaN a \<or> js_isNaN b then NaN
      else if js_finite a \<and> js_finite b
        then finite_result (js_negative a \<noteq> js_negative b) (js_val a * js_val b)
      else if js_zero a \<or> js_zero b then NaN
      else signed_inf (js_negative a \<noteq> js_negative b))"

definition js_div :: "jsnum \<Rightarrow> jsnum \<Rightarrow> jsnum" where
  "js_div a b =
     (if js_isNaN a \<or> js_isNaN b then NaN
      else if \<not> js_finite a
        then (if js_finite b then signed_inf (js_negative a \<noteq> js_negative b) else NaN)
      else if \<not> js_finite b then signed_zero (js_negative a \<noteq> js_negative b)
      else if js_zero b
        then (if js_zero a then NaN else signed_inf (js_negative a \<noteq> js_negative b))
      else finite_result (js_negative a \<noteq> js_negative b) (js_val a / js_val b))"

text \<open>The comparison \<open><\<close>: false on NaN, and the two zeros are equal.\<close>

fun js_lt :: "jsnum \<Rightarrow> jsnum \<Rightarrow> bool" where
  "js_lt NaN _ = False"
| "js_lt _ NaN = False"
| "js_lt NegInf NegInf = False"
| "js_lt NegInf _ = True"
| "js_lt _ NegInf = False"
| "js_lt PosInf _ = False"
| "js_lt _ PosInf = True"
| "js_lt a b = (js_val a < js_val b)"

text \<open>\<open>Math.min\<close> of two numbers: NaN if either is, and \<open>-0\<close> counts as below \<open>+0\<close>.\<close>

definition Math_min :: "jsnum \<Rightarrow> jsnum \<Rightarrow> jsnum" where
  "Math_min a b =
     (if js_isNaN a \<or> js_isNaN b then NaN
      else if js_lt b a then b
      else if js_lt a b then a
      else if js_negative b then b else a)"

text \<open>\<open>Math.pow\<close> at an exponent that is a natural number.\<close>

fun Math_pow :: "jsnum \<Rightarrow> nat \<Rightarrow> jsnum" where
  "Math_pow (Fin x) n = Fin (x ^ n)"
| "Math_pow NegZero n = (if n = 0 then Fin 1 else if even n then Fin 0 else NegZero)"
| "Math_pow PosInf n = (if n = 0 then Fin 1 else PosInf)"
| "Math_pow NegInf n = (if n = 0 then Fin 1 else if even n then PosInf else NegInf)"
| "Math_pow NaN n = (if n = 0 then Fin 1 else NaN)"

fun Math_floor :: "jsnum \<Rightarrow> jsnum" where
  "Math_floor (Fin x) = Fin (of_int \<lfloor>x\<rfloor>)"
| "Math_floor a = a"

section \<open>The counter step\<close>

text \<open>
  The arithmetic of one call of \<open>animate\<close> inside \<open>animateCounter\<close>: the progress of
  the animation at \<open>currentTime\<close>, its ease-out-quadratic image, and the integer written
  to the element.
\<close>

definition startValue :: jsnum where
  "startValue = Fin 0"

definition progress :: "jsnum \<Rightarrow> jsnum \<Rightarrow> jsnum \<Rightarrow> jsnum" where
  "progress startTime duration currentTime =
     (let elapsed = js_sub currentTime startTime
      in Math_min (js_div elapsed duration) (Fin 1))"

definition easedProgress :: "jsnum \<Rightarrow> jsnum" where
  "easedProgress p = js_sub (Fin 1) (Math_pow (js_sub (Fin 1) p) 2)"

definition currentValue :: "jsnum \<Rightarrow> jsnum \<Rightarrow> jsnum" where
  "currentValue finalNumber p =
     Math_floor (js_add startValue (js_mul (js_sub finalNumber startValue) (easedProgress p)))"

section \<open>The component\<close>

subsection \<open>Static data and environment\<close>

record stat =
  number :: jsnum
  suffix :: string
  label :: string

definition statsData :: "stat list" where
  "statsData =
     [\<lparr>number = Fin 500, suffix = ''+'', label = ''Wedding projects completed''\<rparr>,
      \<lparr>number = Fin 97, suffix = ''%'', label = ''Happy Clients''\<rparr>,
      \<lparr>number = Fin 8, suffix = [], label = ''Editors in our team''\<rparr>,
      \<lparr>number = Fin 7, suffix = '' years'', label = ''Post-production experience''\<rparr>]"

text \<open>
  What the style sheet's media queries read: \<open>prefers-reduced-motion: reduce\<close>,
  \<open>hover: hover\<close>, \<open>pointer: fine\<close> and the viewport width in pixels.
\<close>

record environment =
  prefersReducedMotion :: bool
  hoverHover :: bool
  pointerFine :: bool
  viewportWidth :: nat

subsection \<open>State\<close>

text \<open>
  A frame callback is the closure \<open>animate\<close> of one \<open>animateCounter\<close> call: the
  element (the index of its counter), the start time and the two arguments.
  A timer callback is the 200ms callback of \<open>onEnter\<close> or the staggered callback of
  the counter with the given index.
\<close>

record anim =
  element :: nat
  startTime :: jsnum
  finalNumber :: jsnum
  duration :: jsnum

datatype timer_callback = StartCounters | StartCounter nat

text \<open>
  Observations, recorded in order: the card-group trigger fired, the 200ms callback
  that starts the counters ran, a counter step wrote a value to an element, the
  component was unmounted. The trace is read by the theorems only, never by the
  component.
\<close>

datatype obs =
    TriggerFired real
  | CounterStart real
  | Wrote real nat jsnum
  | Unmounted real

text \<open>
  The state of one mounted instance with the part of the browser it uses: the clock,
  the React state (\<open>hasAnimated\<close>, \<open>hoveredCard\<close>), the ref, the live card-group
  ScrollTrigger (with the value of \<open>hasAnimated\<close> its \<open>onEnter\<close> closure captured),
  the pending timers (due time and callback, in creation order), the pending frame
  callbacks (handle and closure), the next frame handle, and the text of the four
  counter elements (the number written, before formatting).
\<close>

record state =
  env :: environment
  now :: real
  mounted :: bool
  hasAnimated :: bool
  hoveredCard :: "nat option"
  animationFrameRef :: "nat option"
  trigger :: "bool option"
  timers :: "(real \<times> timer_callback) list"
  frames :: "(nat \<times> anim) list"
  nextHandle :: nat
  textContent :: "jsnum list"
  trace :: "obs list"

subsection \<open>Browser primitives\<close>

definition requestAnimationFrame :: "anim \<Rightarrow> state \<Rightarrow> nat \<times> state" where
  "requestAnimationFrame cb s =
     (nextHandle s,
      s\<lparr>frames := frames s @ [(nextHandle s, cb)], nextHandle := Suc (nextHandle s)\<rparr>)"

definition cancelAnimationFrame :: "nat \<Rightarrow> state \<Rightarrow> state" where
  "cancelAnimationFrame h s = s\<lparr>frames := filter (\<lambda>f. fst f \<noteq> h) (frames s)\<rparr>"

definition setTimeout :: "timer_callback \<Rightarrow> real \<Rightarrow> state \<Rightarrow> state" where
  "setTimeout cb delay s = s\<lparr>timers := timers s @ [(now s + delay, cb)]\<rparr>"

subsection \<open>animateCounter\<close>

text \<open>
  \<open>animateCounter(element, finalNumber, duration = 1500)\<close>: an omitted duration is
  \<open>None\<close>. The first step is requested and its handle stored in the ref, which all
  counters share.
\<close>

definition animateCounter :: "nat \<Rightarrow> jsnum \<Rightarrow> jsnum option \<Rightarrow> state \<Rightarrow> state" where
  "animateCounter el final durationArg s =
     (let d = (case durationArg of None \<Rightarrow> Fin 1500 | Some x \<Rightarrow> x);
          cb = \<lparr>element = el, startTime = Fin (now s), finalNumber = final, duration = d\<rparr>;
          (h, s') = requestAnimationFrame cb s
      in s'\<lparr>animationFrameRef := Some h\<rparr>)"

text \<open>
  One step: the value is written to the element, and the next step is requested while
  \<open>progress < 1\<close>.
\<close>

definition animate :: "anim \<Rightarrow> jsnum \<Rightarrow> state \<Rightarrow> state" where
  "animate cb currentTime s =
     (let p = progress (startTime cb) (duration cb) currentTime;
          v = currentValue (finalNumber cb) p;
          s1 = s\<lparr>textContent := (textContent s)[element cb := v],
                 trace := trace s @ [Wrote (now s) (element cb) v]\<rparr>
      in if js_lt p (Fin 1)
         then (let (h, s2) = requestAnimationFrame cb s1 in s2\<lparr>animationFrameRef := Some h\<rparr>)
         else s1)"

subsection \<open>Hover handlers\<close>

definition handleMouseEnter :: "nat \<Rightarrow> state \<Rightarrow> state" where
  "handleMouseEnter index s = s\<lparr>hoveredCard := Some index\<rparr>"

definition handleMouseLeave :: "state \<Rightarrow> state" where
  "handleMouseLeave s = s\<lparr>hoveredCard := None\<rparr>"

subsection \<open>Effects\<close>

text \<open>
  The body of the \<open>useGSAP\<close> callback creates the card-group ScrollTrigger, whose
  \<open>onEnter\<close> closes over the \<open>hasAnimated\<close> of the render; its cleanup reverts the
  context (killing the trigger) and cancels the frame whose handle the ref holds. The
  cleanup of \<open>useEffect\<close> cancels the same handle.
\<close>

definition useGSAP_effect :: "state \<Rightarrow> state" where
  "useGSAP_effect s = s\<lparr>trigger := Some (hasAnimated s)\<rparr>"

definition useEffect_cleanup :: "state \<Rightarrow> state" where
  "useEffect_cleanup s =
     (case animationFrameRef s of None \<Rightarrow> s | Some h \<Rightarrow> cancelAnimationFrame h s)"

definition useGSAP_cleanup :: "state \<Rightarrow> state" where
  "useGSAP_cleanup s = useEffect_cleanup (s\<lparr>trigger := None\<rparr>)"

text \<open>
  \<open>setHasAnimated\<close>: a change of the state re-renders the mounted component, and the
  \<open>useGSAP\<close> callback, which depends on \<open>hasAnimated\<close>, runs again. The re-render is
  taken at the call.
\<close>

definition setHasAnimated :: "bool \<Rightarrow> state \<Rightarrow> state" where
  "setHasAnimated b s =
     (if mounted s \<and> hasAnimated s \<noteq> b
      then useGSAP_effect (useGSAP_cleanup (s\<lparr>hasAnimated := b\<rparr>))
      else s)"

text \<open>
  The callback of the 200ms timer: \<open>querySelectorAll\<close> finds the four counters of the
  mounted component (none once it is unmounted), a timer is set for each at
  \<open>index * 80\<close>, and \<open>hasAnimated\<close> is set.
\<close>

definition startCounters :: "state \<Rightarrow> state" where
  "startCounters s =
     (let counters = (if mounted s then [0..<length statsData] else []);
          s1 = foldl (\<lambda>s' index. setTimeout (StartCounter index) (real index * 80) s')
                 (s\<lparr>trace := trace s @ [CounterStart (now s)]\<rparr>) counters
      in setHasAnimated True s1)"

definition startCounter :: "nat \<Rightarrow> state \<Rightarrow> state" where
  "startCounter index s =
     animateCounter index (number (statsData ! index)) (Some (Fin 1200)) s"

fun runTimer :: "timer_callback \<Rightarrow> state \<Rightarrow> state" where
  "runTimer StartCounters s = startCounters s"
| "runTimer (StartCounter index) s = startCounter index s"

text \<open>\<open>onEnter\<close> of the card-group trigger, with the \<open>hasAnimated\<close> it captured.\<close>

definition onEnter :: "bool \<Rightarrow> state \<Rightarrow> state" where
  "onEnter captured s = (if \<not> captured then setTimeout StartCounters 200 s else s)"

definition unmount :: "state \<Rightarrow> state" where
  "unmount s =
     (useEffect_cleanup (useGSAP_cleanup s))
       \<lparr>mounted := False, trace := trace s @ [Unmounted (now s)]\<rparr>"

definition mount :: "environment \<Rightarrow> state" where
  "mount e =
     useGSAP_effect
       \<lparr>env = e, now = 0, mounted = True, hasAnimated = False, hoveredCard = None,
        animationFrameRef = None, trigger = None, timers = [], frames = [],
        nextHandle = 1, textContent = [Fin 0, Fin 0, Fin 0, Fin 0], trace = []\<rparr>"

subsection \<open>Events\<close>

text \<open>
  The simulated scheduler. The earliest pending timer is the next to fire (the first
  created among equals), and it fires when the clock is at its due time: an event at
  time \<open>t\<close> is taken only if \<open>t\<close> is not before the clock and not after the next
  timer's due time. A frame runs the callbacks that were pending when it began, each
  with the frame's time; \<open>once: true\<close> kills the trigger when it fires.
\<close>

fun pop_timer :: "(real \<times> 'a) list \<Rightarrow> ((real \<times> 'a) \<times> (real \<times> 'a) list) option" where
  "pop_timer [] = None"
| "pop_timer (x # xs) =
     (case pop_timer xs of
        None \<Rightarrow> Some (x, [])
      | Some (y, ys) \<Rightarrow> if fst x \<le> fst y then Some (x, xs) else Some (y, x # ys))"

definition can_advance :: "state \<Rightarrow> real \<Rightarrow> bool" where
  "can_advance s t =
     (now s \<le> t \<and> (case pop_timer (timers s) of None \<Rightarrow> True | Some (x, _) \<Rightarrow> t \<le> fst x))"

definition runFrame :: "real \<Rightarrow> state \<Rightarrow> state" where
  "runFrame t s =
     foldl (\<lambda>s' f. animate (snd f) (Fin t) s') (s\<lparr>now := t, frames := []\<rparr>) (frames s)"

datatype event =
    TriggerEnter real
  | TimerFires
  | Frame real
  | MouseEnter nat
  | MouseLeave nat
  | Unmount real

fun step :: "state \<Rightarrow> event \<Rightarrow> state" where
  "step s (TriggerEnter t) =
     (if can_advance s t
      then (case trigger s of
              None \<Rightarrow> s
            | Some captured \<Rightarrow>
                onEnter captured
                  (s\<lparr>now := t, trigger := None, trace := trace s @ [TriggerFired t]\<rparr>))
      else s)"
| "step s TimerFires =
     (case pop_timer (timers s) of
        None \<Rightarrow> s
      | Some (x, rest) \<Rightarrow> runTimer (snd x) (s\<lparr>now := max (now s) (fst x), timers := rest\<rparr>))"
| "step s (Frame t) = (if can_advance s t then runFrame t s else s)"
| "step s (MouseEnter index) =
     (if mounted s \<and> index < length statsData then handleMouseEnter index s else s)"
| "step s (MouseLeave index) =
     (if mounted s \<and> index < length statsData then handleMouseLeave s else s)"
| "step s (Unmount t) =
     (if can_advance s t \<and> mounted s then unmount (s\<lparr>now := t\<rparr>) else s)"

definition run :: "state \<Rightarrow> event list \<Rightarrow> state" where
  "run s evs = foldl step s evs"

subsection \<open>Rendering\<close>

text \<open>
  The parts of a card's markup and style that depend on the hover state or on the
  environment: the class names the JSX chooses by \<open>isHovered\<close>, and what the rules of
  the component's style sheet give the card: the \<open>transform\<close> of \<open>.stat-card:hover\<close>
  (set under \<open>(hover: hover) and (pointer: fine)\<close>, reset to \<open>none\<close> by the later rule
  under \<open>max-width: 768px\<close>) and whether \<open>prefers-reduced-motion\<close> switches the CSS
  transitions of the counter off. The pointer is over the card whose index
  \<open>hoveredCard\<close> holds.
\<close>

record card_view =
  cardClass :: string
  glowClass :: string
  topBorderClass :: string
  iconClass :: string
  numberClass :: string
  numberWillChange :: string
  accentClass :: string
  accentWillChange :: string
  cardTransform :: string
  counterTransition :: string

definition isHovered :: "state \<Rightarrow> nat \<Rightarrow> bool" where
  "isHovered s index = (hoveredCard s = Some index)"

definition statCardHoverTransform :: "environment \<Rightarrow> bool \<Rightarrow> string" where
  "statCardHoverTransform e pointerOver =
     (if pointerOver \<and> viewportWidth e \<le> 768 then ''none''
      else if pointerOver \<and> hoverHover e \<and> pointerFine e then ''translateY(-6px) scale(1.01)''
      else ''none'')"

definition render :: "state \<Rightarrow> nat \<Rightarrow> card_view" where
  "render s index =
     (let h = isHovered s index in
      \<lparr>cardClass = (if h then ''stat-card-hover'' else ''border-white/[0.08]''),
       glowClass = (if h then ''opacity-100'' else ''opacity-0''),
       topBorderClass = (if h then ''opacity-100'' else ''opacity-0''),
       iconClass = (if h then ''scale-105'' else ''scale-100''),
       numberClass = (if h then ''scale-105'' else ''scale-100''),
       numberWillChange = (if h then ''transform'' else ''auto''),
       accentClass = (if h then ''opacity-100 scale-x-105'' else ''opacity-60 scale-x-100''),
       accentWillChange = (if h then ''transform'' else ''auto''),
       cardTransform = statCardHoverTransform (env s) h,
       counterTransition =
         (if prefersReducedMotion (env s) then ''none'' else ''transform 200ms'')\<rparr>)"

subsection \<open>One counter on its own\<close>


text \<open>Projections of the observation trace.\<close>

fun counterStarts :: "obs list \<Rightarrow> real list" where
  "counterStarts [] = []"
| "counterStarts (CounterStart t # os) = t # counterStarts os"
| "counterStarts (_ # os) = counterStarts os"

fun triggerFirings :: "obs list \<Rightarrow> real list" where
  "triggerFirings [] = []"
| "triggerFirings (TriggerFired t # os) = t # triggerFirings os"
| "triggerFirings (_ # os) = triggerFirings os"

text \<open>The writes recorded after the component was unmounted.\<close>

fun writesAfterUnmount :: "obs list \<Rightarrow> obs list" where
  "writesAfterUnmount [] = []"
| "writesAfterUnmount (Unmounted t # os) = filter (\<lambda>ob. case ob of Wrote _ _ _ \<Rightarrow> True | _ \<Rightarrow> False) os"
| "writesAfterUnmount (_ # os) = writesAfterUnmount os"

fun isHover :: "event \<Rightarrow> bool" where
  "isHover (MouseEnter _) = True"
| "isHover (MouseLeave _) = True"
| "isHover _ = False"

definition noHover :: "event list \<Rightarrow> event list" where
  "noHover evs = filter (\<lambda>ev. \<not> isHover ev) evs"

text \<open>The timers still pending whose callback starts the counters, by due time.\<close>

definition pendingStartDues :: "state \<Rightarrow> real list" where
  "pendingStartDues s = map fst (filter (\<lambda>x. snd x = StartCounters) (timers s))"

subsection \<open>The value of a step in closed form\<close>

text \<open>
  The integer \<open>currentValue\<close> yields at the \<open>progress\<close> of a step, for finite
  arguments and a positive duration, written on the reals.
\<close>

definition stepValue :: "real \<Rightarrow> real \<Rightarrow> real \<Rightarrow> real \<Rightarrow> int" where
  "stepValue f t0 D t = \<lfloor>f * (1 - (1 - min ((t - t0) / D) 1)\<^sup>2)\<rfloor>"

subsection \<open>Environments used as examples\<close>

definition desktopEnv :: environment where
  "desktopEnv =
     \<lparr>prefersReducedMotion = False, hoverHover = True, pointerFine = True,
      viewportWidth = 1280\<rparr>"

definition reducedMotionEnv :: environment where
  "reducedMotionEnv =
     \<lparr>prefersReducedMotion = True, hoverHover = True, pointerFine = True,
      viewportWidth = 1280\<rparr>"

definition touchEnv :: environment where
  "touchEnv =
     \<lparr>prefersReducedMotion = False, hoverHover = False, pointerFine = False,
      viewportWidth = 820\<rparr>"

subsection \<open>Invariant of the counter start\<close>

text \<open>
  The clock never passes a pending timer. A run is in one of three phases: the trigger
  has not fired and nothing is scheduled; it has fired, the trigger is gone and the one
  start timer is pending, due 200ms after the first firing; or the start callback has
  run at that time, no start timer is pending, and no live trigger captured
  \<open>hasAnimated = false\<close>.
\<close>

definition clock_ok :: "state \<Rightarrow> bool" where
  "clock_ok s = list_all (\<lambda>x. now s \<le> fst x) (timers s)"

definition phaseA :: "state \<Rightarrow> bool" where
  "phaseA s \<longleftrightarrow> triggerFirings (trace s) = [] \<and> counterStarts (trace s) = []
     \<and> pendingStartDues s = [] \<and> trigger s \<noteq> Some True"

definition phaseB :: "state \<Rightarrow> bool" where
  "phaseB s \<longleftrightarrow> triggerFirings (trace s) \<noteq> [] \<and> counterStarts (trace s) = []
     \<and> pendingStartDues s = [hd (triggerFirings (trace s)) + 200] \<and> trigger s = None"

definition phaseC :: "state \<Rightarrow> bool" where
  "phaseC s \<longleftrightarrow> triggerFirings (trace s) \<noteq> []
     \<and> counterStarts (trace s) = [hd (triggerFirings (trace s)) + 200]
     \<and> pendingStartDues s = [] \<and> trigger s \<noteq> Some False"

definition start_inv :: "state \<Rightarrow> bool" where
  "start_inv s \<longleftrightarrow> clock_ok s \<and> (phaseA s \<or> phaseB s \<or> phaseC s)"

text \<open>Every pending frame callback was created with the duration 1200.\<close>

definition frames_1200 :: "state \<Rightarrow> bool" where
  "frames_1200 s = list_all (\<lambda>f. duration (snd f) = Fin 1200) (frames s)"

subsection \<open>Invariant of the display\<close>

text \<open>
  A pending step is well formed at time \<open>t\<close> if it belongs to one of the four
  counters, carries that stat's number and the duration 1200, and started at a finite
  time not after \<open>t\<close>. A recorded write is well formed if it wrote an integer between
  0 and the number of its stat. A pending counter timer is well formed if its index is
  one of the four.
\<close>

definition frame_ok :: "real \<Rightarrow> anim \<Rightarrow> bool" where
  "frame_ok t cb \<longleftrightarrow> element cb < length statsData \<and> duration cb = Fin 1200
     \<and> finalNumber cb = number (statsData ! element cb)
     \<and> (case startTime cb of Fin t0 \<Rightarrow> t0 \<le> t | _ \<Rightarrow> False)"

fun write_ok :: "obs \<Rightarrow> bool" where
  "write_ok (Wrote t i (Fin x)) =
     (i < length statsData \<and> 0 \<le> x \<and> of_int \<lfloor>x\<rfloor> = x
      \<and> (case number (statsData ! i) of Fin f \<Rightarrow> x \<le> f | _ \<Rightarrow> False))"
| "write_ok (Wrote t i _) = False"
| "write_ok _ = True"

fun timer_ok :: "real \<times> timer_callback \<Rightarrow> bool" where
  "timer_ok (d, StartCounter i) = (i < length statsData)"
| "timer_ok (d, StartCounters) = True"

definition display_inv :: "state \<Rightarrow> bool" where
  "display_inv s \<longleftrightarrow> list_all (\<lambda>f. frame_ok (now s) (snd f)) (frames s)
     \<and> list_all timer_ok (timers s) \<and> list_all write_ok (trace s)"

section \<open>Hover state\<close>

text \<open>
  A hover event changes \<open>hoveredCard\<close> and nothing else, and no other event reads
  \<open>hoveredCard\<close>: every operation commutes with an update of that field.
\<close>

lemma step_hover_only:
  "isHover ev \<Longrightarrow> (step s ev)\<lparr>hoveredCard := h\<rparr> = s\<lparr>hoveredCard := h\<rparr>"
  by (cases ev) (simp_all add: handleMouseEnter_def handleMouseLeave_def)

lemma animate_hover:
  "animate cb t (s\<lparr>hoveredCard := h\<rparr>) = (animate cb t s)\<lparr>hoveredCard := h\<rparr>"
  by (simp add: animate_def requestAnimationFrame_def Let_def)

lemma foldl_animate_hover:
  "foldl (\<lambda>s' f. animate (snd f) t s') (s\<lparr>hoveredCard := h\<rparr>) fs
     = (foldl (\<lambda>s' f. animate (snd f) t s') s fs)\<lparr>hoveredCard := h\<rparr>"
  by (induction fs arbitrary: s) (simp_all add: animate_hover)

lemma runFrame_hover:
  "runFrame t (s\<lparr>hoveredCard := h\<rparr>) = (runFrame t s)\<lparr>hoveredCard := h\<rparr>"
proof -
  have eq: "s\<lparr>hoveredCard := h, now := t, frames := []\<rparr> = s\<lparr>now := t, frames := []\<rparr>\<lparr>hoveredCard := h\<rparr>"
    by simp
  show ?thesis
    by (simp add: eq runFrame_def foldl_animate_hover)
qed

lemma setTimeout_hover:
  "setTimeout cb d (s\<lparr>hoveredCard := h\<rparr>) = (setTimeout cb d s)\<lparr>hoveredCard := h\<rparr>"
  by (simp add: setTimeout_def)

lemma foldl_setTimeout_hover:
  "foldl (\<lambda>s' index. setTimeout (StartCounter index) (real index * 80) s') (s\<lparr>hoveredCard := h\<rparr>) is
     = (foldl (\<lambda>s' index. setTimeout (StartCounter index) (real index * 80) s') s is)\<lparr>hoveredCard := h\<rparr>"
  by (induction "is" arbitrary: s) (simp_all add: setTimeout_hover)

lemma useEffect_cleanup_hover:
  "useEffect_cleanup (s\<lparr>hoveredCard := h\<rparr>) = (useEffect_cleanup s)\<lparr>hoveredCard := h\<rparr>"
  by (simp add: useEffect_cleanup_def cancelAnimationFrame_def split: option.splits)

lemma useGSAP_cleanup_hover:
  "useGSAP_cleanup (s\<lparr>hoveredCard := h\<rparr>) = (useGSAP_cleanup s)\<lparr>hoveredCard := h\<rparr>"
proof -
  have eq: "s\<lparr>hoveredCard := h, trigger := None\<rparr> = s\<lparr>trigger := None\<rparr>\<lparr>hoveredCard := h\<rparr>"
    by simp
  show ?thesis
    by (simp add: eq useGSAP_cleanup_def useEffect_cleanup_hover)
qed

lemma setHasAnimated_hover:
  "setHasAnimated b (s\<lparr>hoveredCard := h\<rparr>) = (setHasAnimated b s)\<lparr>hoveredCard := h\<rparr>"
proof -
  have eq: "s\<lparr>hoveredCard := h, hasAnimated := b\<rparr> = s\<lparr>hasAnimated := b\<rparr>\<lparr>hoveredCard := h\<rparr>"
    by simp
  show ?thesis
    by (simp add: eq setHasAnimated_def useGSAP_effect_def useGSAP_cleanup_hover)
qed

lemma startCounters_hover:
  "startCounters (s\<lparr>hoveredCard := h\<rparr>) = (startCounters s)\<lparr>hoveredCard := h\<rparr>"
proof -
  have eq: "s\<lparr>hoveredCard := h, trace := trace s @ [CounterStart (now s)]\<rparr>
          = s\<lparr>trace := trace s @ [CounterStart (now s)]\<rparr>\<lparr>hoveredCard := h\<rparr>"
    by simp
  show ?thesis
    by (simp add: eq startCounters_def setHasAnimated_hover foldl_setTimeout_hover Let_def)
qed

lemma startCounter_hover:
  "startCounter i (s\<lparr>hoveredCard := h\<rparr>) = (startCounter i s)\<lparr>hoveredCard := h\<rparr>"
  by (simp add: startCounter_def animateCounter_def requestAnimationFrame_def Let_def)

lemma runTimer_hover:
  "runTimer cb (s\<lparr>hoveredCard := h\<rparr>) = (runTimer cb s)\<lparr>hoveredCard := h\<rparr>"
  by (cases cb) (simp_all add: startCounters_hover startCounter_hover)

lemma unmount_hover:
  "unmount (s\<lparr>hoveredCard := h\<rparr>) = (unmount s)\<lparr>hoveredCard := h\<rparr>"
  by (simp add: unmount_def useGSAP_cleanup_hover useEffect_cleanup_hover)

lemma onEnter_hover:
  "onEnter c (s\<lparr>hoveredCard := h\<rparr>) = (onEnter c s)\<lparr>hoveredCard := h\<rparr>"
  by (simp add: onEnter_def setTimeout_hover)

lemma can_advance_hover: "can_advance (s\<lparr>hoveredCard := h\<rparr>) t = can_advance s t"
  by (simp add: can_advance_def)

lemma step_other_hover:
  "\<not> isHover ev \<Longrightarrow> step (s\<lparr>hoveredCard := h\<rparr>) ev = (step s ev)\<lparr>hoveredCard := h\<rparr>"
proof (cases ev)
  case (TriggerEnter t)
  have eq: "s\<lparr>hoveredCard := h, now := t, trigger := None, trace := trace s @ [TriggerFired t]\<rparr>
          = s\<lparr>now := t, trigger := None, trace := trace s @ [TriggerFired t]\<rparr>\<lparr>hoveredCard := h\<rparr>"
    by simp
  show ?thesis
    by (simp add: eq TriggerEnter can_advance_hover onEnter_hover split: option.splits)
next
  case TimerFires
  have eq: "s\<lparr>hoveredCard := h, now := d, timers := r\<rparr> = s\<lparr>now := d, timers := r\<rparr>\<lparr>hoveredCard := h\<rparr>"
    for d r
    by simp
  show ?thesis
    by (simp add: eq TimerFires runTimer_hover split: option.splits prod.splits)
next
  case (Frame t)
  show ?thesis
    by (simp add: Frame can_advance_hover runFrame_hover)
next
  case (Unmount t)
  have eq: "s\<lparr>hoveredCard := h, now := t\<rparr> = s\<lparr>now := t\<rparr>\<lparr>hoveredCard := h\<rparr>"
    by simp
  show ?thesis
    by (simp add: eq Unmount can_advance_hover unmount_hover)
qed simp_all

lemma run_noHover:
  "(run s evs)\<lparr>hoveredCard := h\<rparr> = run (s\<lparr>hoveredCard := h\<rparr>) (noHover evs)"
proof (induction evs arbitrary: s)
  case Nil
  show ?case by (simp add: run_def noHover_def)
next
  case (Cons ev evs)
  show ?case
  proof (cases "isHover ev")
    case True
    have "(run s (ev # evs))\<lparr>hoveredCard := h\<rparr> = run ((step s ev)\<lparr>hoveredCard := h\<rparr>) (noHover evs)"
      using Cons.IH [of "step s ev"] by (simp add: run_def)
    then show ?thesis using True by (simp add: step_hover_only noHover_def)
  next
    case False
    have "(run s (ev # evs))\<lparr>hoveredCard := h\<rparr> = run ((step s ev)\<lparr>hoveredCard := h\<rparr>) (noHover evs)"
      using Cons.IH [of "step s ev"] by (simp add: run_def)
    then show ?thesis using False by (simp add: step_other_hover noHover_def run_def)
  qed
qed

text \<open>
  Claim C9. The values the counters display and the times of their steps do not depend
  on the hover state: two runs from the same state whose events differ only in the
  pointer enter and leave events record the same writes at the same times, show the
  same text, and have the same pending frames and timers, the same ref and the same
  clock.
\<close>

theorem hover_does_not_affect_counters:
  assumes "noHover evs1 = noHover evs2"
  shows "trace (run s evs1) = trace (run s evs2)
       \<and> textContent (run s evs1) = textContent (run s evs2)
       \<and> frames (run s evs1) = frames (run s evs2)
       \<and> timers (run s evs1) = timers (run s evs2)
       \<and> animationFrameRef (run s evs1) = animationFrameRef (run s evs2)
       \<and> now (run s evs1) = now (run s evs2)"
proof -
  have "(run s evs1)\<lparr>hoveredCard := None\<rparr> = (run s evs2)\<lparr>hoveredCard := None\<rparr>"
    using assms by (simp add: run_noHover)
  then have "trace (run s evs1) = trace (run s evs2)
       \<and> textContent (run s evs1) = textContent (run s evs2)
       \<and> frames (run s evs1) = frames (run s evs2)
       \<and> timers (run s evs1) = timers (run s evs2)
       \<and> animationFrameRef (run s evs1) = animationFrameRef (run s evs2)
       \<and> now (run s evs1) = now (run s evs2)"
    by (cases "run s evs1"; cases "run s evs2") simp
  then show ?thesis .
qed

text \<open>
  An instance: a pointer that enters and leaves card 1 while the first counter runs
  leaves the trace of the run as it is without the pointer.
\<close>

theorem hover_does_not_affect_counters_witness:
  "noHover [TriggerEnter 0, MouseEnter 1, TimerFires, TimerFires, MouseLeave 1, Frame 250]
     = noHover [TriggerEnter 0, TimerFires, TimerFires, Frame 250]
   \<and> trace (run (mount desktopEnv)
        [TriggerEnter 0, MouseEnter 1, TimerFires, TimerFires, MouseLeave 1, Frame 250])
     = trace (run (mount desktopEnv) [TriggerEnter 0, TimerFires, TimerFires, Frame 250])
   \<and> trace (run (mount desktopEnv) [TriggerEnter 0, TimerFires, TimerFires, Frame 250])
     = [TriggerFired 0, CounterStart 200, Wrote 250 0 (Fin 40)]"
proof -
  have same: "noHover [TriggerEnter 0, MouseEnter 1, TimerFires, TimerFires, MouseLeave 1, Frame 250]
     = noHover [TriggerEnter 0, TimerFires, TimerFires, Frame 250]"
    by (simp add: noHover_def)
  have "trace (run (mount desktopEnv) [TriggerEnter 0, TimerFires, TimerFires, Frame 250])
     = [TriggerFired 0, CounterStart 200, Wrote 250 0 (Fin 40)]"
    by code_simp
  then show ?thesis
    using same hover_does_not_affect_counters [OF same, of "mount desktopEnv"] by simp
qed

text \<open>
  Claim C10. A pointer-leave on any card clears \<open>hoveredCard\<close> whichever card is
  hovered: \<open>handleMouseLeave\<close> takes no index, so after a pointer-enter on card \<open>j\<close>
  and a pointer-leave on any card \<open>i\<close> of the mounted component, no card is hovered.
\<close>

theorem mouse_leave_clears_hover:
  "hoveredCard (handleMouseLeave s) = None
   \<and> (mounted s \<and> i < length statsData \<longrightarrow>
        hoveredCard (step (step s (MouseEnter j)) (MouseLeave i)) = None)"
  by (simp add: handleMouseLeave_def handleMouseEnter_def)

theorem mouse_leave_clears_hover_witness:
  "mounted (mount desktopEnv) \<and> 3 < length statsData
   \<and> hoveredCard (step (mount desktopEnv) (MouseEnter 1)) = Some 1
   \<and> hoveredCard (step (step (mount desktopEnv) (MouseEnter 1)) (MouseLeave 3)) = None"
  using mouse_leave_clears_hover [of "mount desktopEnv" 3 1]
  by (simp add: mount_def useGSAP_effect_def statsData_def handleMouseEnter_def)

section \<open>The values a counter displays\<close>

text \<open>
  On finite numbers the arithmetic of a step is the arithmetic of the reals. For a
  positive duration and a step time not before the start the value written is
  \<open>stepValue\<close>: an integer between \<open>0\<close> and the final value that never decreases
  with the step time; the lower clamp of the progress at \<open>0\<close>, which the code does not
  have, is never reached.
\<close>

lemma js_sub_Fin: "js_sub (Fin x) (Fin y) = Fin (x - y)"
  by (simp add: js_sub_def)

lemma js_div_pos: "0 < y \<Longrightarrow> js_div (Fin x) (Fin y) = Fin (x / y)"
  by (simp add: js_div_def finite_result_def signed_zero_def)

lemma Math_min_Fin: "Math_min (Fin x) (Fin y) = Fin (min x y)"
  by (simp add: Math_min_def min_def)

lemma progress_Fin:
  "0 < D \<Longrightarrow> progress (Fin t0) (Fin D) (Fin t) = Fin (min ((t - t0) / D) 1)"
  by (simp add: progress_def js_sub_Fin js_div_pos Math_min_Fin)

lemma easedProgress_Fin: "easedProgress (Fin p) = Fin (1 - (1 - p)\<^sup>2)"
  by (simp add: easedProgress_def js_sub_Fin)

lemma js_add_zero_mul: "js_add (Fin 0) (js_mul (Fin f) (Fin e)) = Fin (f * e)"
  by (auto simp: js_mul_def finite_result_def signed_zero_def)

lemma currentValue_Fin:
  "currentValue (Fin f) (Fin p) = Fin (of_int \<lfloor>f * (1 - (1 - p)\<^sup>2)\<rfloor>)"
  by (simp add: currentValue_def easedProgress_Fin startValue_def js_sub_Fin js_add_zero_mul)

lemma eased_bounds:
  fixes p :: real
  assumes "0 \<le> p" "p \<le> 1"
  shows "0 \<le> 1 - (1 - p)\<^sup>2" "1 - (1 - p)\<^sup>2 \<le> 1"
proof -
  have "(1 - p)\<^sup>2 \<le> 1\<^sup>2" using assms by (intro power_mono) simp_all
  then show "0 \<le> 1 - (1 - p)\<^sup>2" by simp
  show "1 - (1 - p)\<^sup>2 \<le> 1" by simp
qed


lemma stepValue_code:
  "0 < D \<Longrightarrow> currentValue (Fin f) (progress (Fin t0) (Fin D) (Fin t)) = Fin (of_int (stepValue f t0 D t))"
  by (simp add: progress_Fin currentValue_Fin stepValue_def)

lemma stepValue_range:
  assumes "0 \<le> f" "0 < D" "t0 \<le> t"
  shows "0 \<le> stepValue f t0 D t" "of_int (stepValue f t0 D t) \<le> f"
proof -
  define p where "p = min ((t - t0) / D) 1"
  have p: "0 \<le> p" "p \<le> 1" using assms by (simp_all add: p_def)
  have e: "0 \<le> 1 - (1 - p)\<^sup>2" "1 - (1 - p)\<^sup>2 \<le> 1" using eased_bounds [OF p] by simp_all
  have "0 \<le> f * (1 - (1 - p)\<^sup>2)" using assms(1) e by simp
  then show "0 \<le> stepValue f t0 D t" by (simp add: stepValue_def p_def)
  have "f * (1 - (1 - p)\<^sup>2) \<le> f * 1" using assms(1) e by (intro mult_left_mono) simp_all
  then show "of_int (stepValue f t0 D t) \<le> f"
    unfolding stepValue_def p_def [symmetric] by (simp add: order_trans [OF of_int_floor_le])
qed








text \<open>
  What one step does to the display and to the pending frames: it writes
  \<open>currentValue\<close> to its element and asks for one more frame exactly when
  \<open>progress < 1\<close>.
\<close>

lemma animate_textContent:
  "textContent (animate cb t s)
     = (textContent s)[element cb :=
          currentValue (finalNumber cb) (progress (startTime cb) (duration cb) t)]"
  by (simp add: animate_def requestAnimationFrame_def Let_def)

lemma animate_frames:
  "frames (animate cb t s)
     = frames s @ (if js_lt (progress (startTime cb) (duration cb) t) (Fin 1)
                   then [(nextHandle s, cb)] else [])"
  by (simp add: animate_def requestAnimationFrame_def Let_def)


















text \<open>
  Claim C8 fails as stated: a call of \<open>animateCounter\<close> without a duration runs with
  1500, not 1200. 1200ms after its start such a counter of 500 displays 480, where the
  counter called with 1200 displays 500.
\<close>

theorem default_duration_counterexample:
  "textContent (runFrame 1200 (animateCounter 0 (Fin 500) None (mount desktopEnv)))
     = [Fin 480, Fin 0, Fin 0, Fin 0]
   \<and> map (\<lambda>f. duration (snd f)) (frames (animateCounter 0 (Fin 500) None (mount desktopEnv)))
     = [Fin 1500]
   \<and> textContent (runFrame 1200 (animateCounter 0 (Fin 500) (Some (Fin 1200)) (mount desktopEnv)))
     = [Fin 500, Fin 0, Fin 0, Fin 0]"
  by code_simp

text \<open>Every counter the component itself starts runs with the duration 1200.\<close>

lemma animate_frames_1200:
  "frames_1200 s \<Longrightarrow> duration cb = Fin 1200 \<Longrightarrow> frames_1200 (animate cb t s)"
  by (simp add: frames_1200_def animate_frames)

lemma foldl_animate_frames_1200:
  "frames_1200 s \<Longrightarrow> list_all (\<lambda>f. duration (snd f) = Fin 1200) fs
     \<Longrightarrow> frames_1200 (foldl (\<lambda>s' f. animate (snd f) t s') s fs)"
  by (induction fs arbitrary: s) (simp_all add: animate_frames_1200)

lemma runFrame_frames_1200: "frames_1200 s \<Longrightarrow> frames_1200 (runFrame t s)"
  unfolding runFrame_def
  by (rule foldl_animate_frames_1200) (simp_all add: frames_1200_def)

lemma useEffect_cleanup_frames_1200: "frames_1200 s \<Longrightarrow> frames_1200 (useEffect_cleanup s)"
  by (simp add: frames_1200_def useEffect_cleanup_def cancelAnimationFrame_def list_all_iff
      split: option.splits)

lemma useGSAP_cleanup_frames_1200: "frames_1200 s \<Longrightarrow> frames_1200 (useGSAP_cleanup s)"
  unfolding useGSAP_cleanup_def
  by (rule useEffect_cleanup_frames_1200) (simp add: frames_1200_def)

lemma unmount_frames_1200: "frames_1200 s \<Longrightarrow> frames_1200 (unmount s)"
  using useEffect_cleanup_frames_1200 [OF useGSAP_cleanup_frames_1200, of s]
  by (simp add: unmount_def frames_1200_def)

lemma setHasAnimated_frames_1200: "frames_1200 s \<Longrightarrow> frames_1200 (setHasAnimated b s)"
proof -
  assume a: "frames_1200 s"
  then have "frames_1200 (s\<lparr>hasAnimated := b\<rparr>)" by (simp add: frames_1200_def)
  then have "frames_1200 (useGSAP_cleanup (s\<lparr>hasAnimated := b\<rparr>))"
    by (rule useGSAP_cleanup_frames_1200)
  then show ?thesis using a by (simp add: setHasAnimated_def useGSAP_effect_def frames_1200_def)
qed

lemma foldl_setTimeout_frames:
  "frames (foldl (\<lambda>s' index. setTimeout (StartCounter index) (real index * 80) s') s is) = frames s"
  by (induction "is" arbitrary: s) (simp_all add: setTimeout_def)

lemma startCounters_frames_1200: "frames_1200 s \<Longrightarrow> frames_1200 (startCounters s)"
  unfolding startCounters_def Let_def
  by (rule setHasAnimated_frames_1200) (simp add: frames_1200_def foldl_setTimeout_frames)

lemma startCounter_frames_1200: "frames_1200 s \<Longrightarrow> frames_1200 (startCounter i s)"
  by (simp add: frames_1200_def startCounter_def animateCounter_def requestAnimationFrame_def Let_def)

lemma runTimer_frames_1200: "frames_1200 s \<Longrightarrow> frames_1200 (runTimer cb s)"
  by (cases cb) (simp_all add: startCounters_frames_1200 startCounter_frames_1200)

lemma step_frames_1200:
  assumes "frames_1200 s"
  shows "frames_1200 (step s ev)"
proof (cases ev)
  case (TriggerEnter t)
  have "frames_1200 (onEnter c (s\<lparr>now := t, trigger := None, trace := trace s @ [TriggerFired t]\<rparr>))"
    for c
    using assms by (simp add: frames_1200_def onEnter_def setTimeout_def)
  then show ?thesis using assms TriggerEnter by (simp split: option.splits)
next
  case TimerFires
  have "frames_1200 (runTimer cb (s\<lparr>now := d, timers := r\<rparr>))" for cb d r
    by (rule runTimer_frames_1200) (use assms in \<open>simp add: frames_1200_def\<close>)
  then show ?thesis using assms TimerFires by (simp split: option.splits prod.splits)
next
  case (Frame t)
  then show ?thesis using assms by (simp add: runFrame_frames_1200)
next
  case (MouseEnter i)
  then show ?thesis using assms by (simp add: frames_1200_def handleMouseEnter_def)
next
  case (MouseLeave i)
  then show ?thesis using assms by (simp add: frames_1200_def handleMouseLeave_def)
next
  case (Unmount t)
  have "frames_1200 (unmount (s\<lparr>now := t\<rparr>))"
    by (rule unmount_frames_1200) (use assms in \<open>simp add: frames_1200_def\<close>)
  then show ?thesis using assms Unmount by simp
qed

lemma run_frames_1200: "frames_1200 s \<Longrightarrow> frames_1200 (run s evs)"
  unfolding run_def by (induction evs arbitrary: s) (simp_all add: step_frames_1200)

lemma mount_frames_1200: "frames_1200 (mount e)"
  by (simp add: frames_1200_def mount_def useGSAP_effect_def)

text \<open>
  Claim C8, amended. The default duration of \<open>animateCounter\<close>, used when the call
  gives none, is 1500ms; the component's own calls give 1200ms, so every frame callback
  of a run of the component has the duration 1200.
\<close>

theorem default_duration_is_1500:
  "animateCounter el final None s = animateCounter el final (Some (Fin 1500)) s
   \<and> (\<forall>f\<in>set (frames (run (mount e) evs)). duration (snd f) = Fin 1200)"
  using run_frames_1200 [OF mount_frames_1200, of e evs]
  by (simp add: animateCounter_def frames_1200_def list_all_iff)

theorem default_duration_is_1500_witness:
  "frames (animateCounter 0 (Fin 500) None (mount desktopEnv))
     = frames (animateCounter 0 (Fin 500) (Some (Fin 1500)) (mount desktopEnv))
   \<and> map (\<lambda>f. duration (snd f))
        (frames (run (mount desktopEnv)
           [TriggerEnter 0, TimerFires, TimerFires, TimerFires, TimerFires, TimerFires]))
     = [Fin 1200, Fin 1200, Fin 1200, Fin 1200]"
proof -
  have "map (\<lambda>f. duration (snd f))
        (frames (run (mount desktopEnv)
           [TriggerEnter 0, TimerFires, TimerFires, TimerFires, TimerFires, TimerFires]))
     = [Fin 1200, Fin 1200, Fin 1200, Fin 1200]"
    by code_simp
  then show ?thesis
    using default_duration_is_1500 [of 0 "Fin 500" "mount desktopEnv" desktopEnv
        "[TriggerEnter 0, TimerFires, TimerFires, TimerFires, TimerFires, TimerFires]"]
    by simp
qed

section \<open>The counter start\<close>

text \<open>
  The projections of the trace distribute over appending, and the operations that do
  not touch the trigger, the start timer or the two kinds of observation keep them.
\<close>

lemma counterStarts_append [simp]:
  "counterStarts (xs @ ys) = counterStarts xs @ counterStarts ys"
  by (induction xs rule: counterStarts.induct) simp_all

lemma triggerFirings_append [simp]:
  "triggerFirings (xs @ ys) = triggerFirings xs @ triggerFirings ys"
  by (induction xs rule: triggerFirings.induct) simp_all

lemma animate_keeps:
  "timers (animate cb t s) = timers s" "trigger (animate cb t s) = trigger s"
  "now (animate cb t s) = now s"
  "counterStarts (trace (animate cb t s)) = counterStarts (trace s)"
  "triggerFirings (trace (animate cb t s)) = triggerFirings (trace s)"
  by (simp_all add: animate_def requestAnimationFrame_def Let_def)

lemma foldl_animate_keeps:
  "timers (foldl (\<lambda>s' f. animate (snd f) t s') s fs) = timers s"
  "trigger (foldl (\<lambda>s' f. animate (snd f) t s') s fs) = trigger s"
  "now (foldl (\<lambda>s' f. animate (snd f) t s') s fs) = now s"
  "counterStarts (trace (foldl (\<lambda>s' f. animate (snd f) t s') s fs)) = counterStarts (trace s)"
  "triggerFirings (trace (foldl (\<lambda>s' f. animate (snd f) t s') s fs)) = triggerFirings (trace s)"
  by (induction fs arbitrary: s) (simp_all add: animate_keeps)

lemma runFrame_keeps:
  "timers (runFrame t s) = timers s" "trigger (runFrame t s) = trigger s"
  "now (runFrame t s) = t"
  "counterStarts (trace (runFrame t s)) = counterStarts (trace s)"
  "triggerFirings (trace (runFrame t s)) = triggerFirings (trace s)"
  by (simp_all add: runFrame_def foldl_animate_keeps)

lemma startCounter_keeps:
  "timers (startCounter i s) = timers s" "trigger (startCounter i s) = trigger s"
  "now (startCounter i s) = now s"
  "counterStarts (trace (startCounter i s)) = counterStarts (trace s)"
  "triggerFirings (trace (startCounter i s)) = triggerFirings (trace s)"
  by (simp_all add: startCounter_def animateCounter_def requestAnimationFrame_def Let_def)

lemma useEffect_cleanup_keeps:
  "timers (useEffect_cleanup s) = timers s" "trigger (useEffect_cleanup s) = trigger s"
  "now (useEffect_cleanup s) = now s" "trace (useEffect_cleanup s) = trace s"
  "hasAnimated (useEffect_cleanup s) = hasAnimated s"
  by (simp_all add: useEffect_cleanup_def cancelAnimationFrame_def split: option.splits)

lemma useGSAP_cleanup_keeps:
  "timers (useGSAP_cleanup s) = timers s" "trigger (useGSAP_cleanup s) = None"
  "now (useGSAP_cleanup s) = now s" "trace (useGSAP_cleanup s) = trace s"
  "hasAnimated (useGSAP_cleanup s) = hasAnimated s"
  by (simp_all add: useGSAP_cleanup_def useEffect_cleanup_keeps)

lemma unmount_keeps:
  "timers (unmount s) = timers s" "trigger (unmount s) = None"
  "now (unmount s) = now s" "trace (unmount s) = trace s @ [Unmounted (now s)]"
  by (simp_all add: unmount_def useGSAP_cleanup_keeps useEffect_cleanup_keeps)

lemma setHasAnimated_keeps:
  "timers (setHasAnimated True s) = timers s"
  "now (setHasAnimated True s) = now s" "trace (setHasAnimated True s) = trace s"
  "trigger (setHasAnimated True s) = trigger s \<or> trigger (setHasAnimated True s) = Some True"
  by (simp_all add: setHasAnimated_def useGSAP_effect_def useGSAP_cleanup_keeps)

lemma foldl_setTimeout_keeps:
  "now (foldl (\<lambda>s' index. setTimeout (StartCounter index) (real index * 80) s') s is) = now s"
  "trigger (foldl (\<lambda>s' index. setTimeout (StartCounter index) (real index * 80) s') s is) = trigger s"
  "trace (foldl (\<lambda>s' index. setTimeout (StartCounter index) (real index * 80) s') s is) = trace s"
  "timers (foldl (\<lambda>s' index. setTimeout (StartCounter index) (real index * 80) s') s is)
     = timers s @ map (\<lambda>index. (now s + real index * 80, StartCounter index)) is"
  by (induction "is" arbitrary: s) (simp_all add: setTimeout_def)

lemma startCounters_keeps:
  "now (startCounters s) = now s"
  "trace (startCounters s) = trace s @ [CounterStart (now s)]"
  "\<exists>is. timers (startCounters s) = timers s @ map (\<lambda>index. (now s + real index * 80, StartCounter index)) is"
  "trigger (startCounters s) = trigger s \<or> trigger (startCounters s) = Some True"
proof -
  let ?is = "if mounted s then [0..<length statsData] else []"
  let ?s1 = "foldl (\<lambda>s' index. setTimeout (StartCounter index) (real index * 80) s')
               (s\<lparr>trace := trace s @ [CounterStart (now s)]\<rparr>) ?is"
  have sc: "startCounters s = setHasAnimated True ?s1" by (simp add: startCounters_def Let_def)
  show "now (startCounters s) = now s"
    by (simp only: sc setHasAnimated_keeps foldl_setTimeout_keeps) simp
  show "trace (startCounters s) = trace s @ [CounterStart (now s)]"
    by (simp only: sc setHasAnimated_keeps foldl_setTimeout_keeps) simp
  have "timers (startCounters s) = timers s @ map (\<lambda>index. (now s + real index * 80, StartCounter index)) ?is"
    by (simp only: sc setHasAnimated_keeps foldl_setTimeout_keeps) simp
  then show "\<exists>is. timers (startCounters s) = timers s @ map (\<lambda>index. (now s + real index * 80, StartCounter index)) is"
    by blast
  have "trigger ?s1 = trigger s" by (simp only: foldl_setTimeout_keeps) simp
  then show "trigger (startCounters s) = trigger s \<or> trigger (startCounters s) = Some True"
    using setHasAnimated_keeps(4) [of ?s1] by (simp only: sc) 
qed

lemma pop_timer_split:
  "pop_timer xs = Some (x, rest) \<Longrightarrow>
     \<exists>ys zs. xs = ys @ x # zs \<and> rest = ys @ zs \<and> (\<forall>y\<in>set xs. fst x \<le> fst y)"
proof (induction xs arbitrary: x rest)
  case Nil
  then show ?case by simp
next
  case (Cons a xs)
  show ?case
  proof (cases "pop_timer xs")
    case None
    then have "xs = []" by (cases xs) (simp_all split: option.splits prod.splits if_splits)
    with Cons.prems None show ?thesis by simp
  next
    case (Some p)
    obtain y ys where p: "p = (y, ys)" by (cases p)
    from Cons.IH [of y ys] Some p obtain us vs where
      xs: "xs = us @ y # vs" "ys = us @ vs" "\<forall>z\<in>set xs. fst y \<le> fst z" by auto
    show ?thesis
    proof (cases "fst a \<le> fst y")
      case True
      with Cons.prems Some p have "x = a" "rest = xs" by simp_all
      moreover have "\<forall>z\<in>set (a # xs). fst a \<le> fst z" using True xs(3) by auto
      ultimately show ?thesis by (intro exI [of _ "[]"] exI [of _ xs]) simp
    next
      case False
      with Cons.prems Some p have "x = y" "rest = a # ys" by simp_all
      moreover have "\<forall>z\<in>set (a # xs). fst y \<le> fst z" using False xs(3) by auto
      ultimately show ?thesis using xs by (intro exI [of _ "a # us"] exI [of _ vs]) simp
    qed
  qed
qed

lemma pop_timer_None: "pop_timer xs = None \<longleftrightarrow> xs = []"
  by (cases xs) (simp_all split: option.splits prod.splits if_splits)

lemma can_advance_clock:
  assumes "can_advance s t"
  shows "list_all (\<lambda>x. t \<le> fst x) (timers s)"
proof (cases "pop_timer (timers s)")
  case None
  then show ?thesis by (simp add: pop_timer_None)
next
  case (Some p)
  obtain x rest where p: "p = (x, rest)" by (cases p)
  from pop_timer_split [of "timers s" x rest] Some p
  have "\<forall>y\<in>set (timers s). fst x \<le> fst y" by auto
  moreover have "t \<le> fst x" using assms Some p by (simp add: can_advance_def)
  ultimately show ?thesis by (auto simp: list_all_iff)
qed

lemma start_inv_cong:
  assumes "start_inv s"
    and "triggerFirings (trace s') = triggerFirings (trace s)"
    and "counterStarts (trace s') = counterStarts (trace s)"
    and "timers s' = timers s"
    and "trigger s' = trigger s \<or> trigger s' = None"
    and "list_all (\<lambda>x. now s' \<le> fst x) (timers s)"
  shows "start_inv s'"
proof -
  have pend: "pendingStartDues s' = pendingStartDues s"
    using assms(4) by (simp add: pendingStartDues_def)
  have clock: "clock_ok s'" using assms(4,6) by (simp add: clock_ok_def)
  from assms(1) consider (A) "phaseA s" | (B) "phaseB s" | (C) "phaseC s"
    unfolding start_inv_def by blast
  then have "phaseA s' \<or> phaseB s' \<or> phaseC s'"
  proof cases
    case A
    then have "phaseA s'" using assms(2,3,5) pend unfolding phaseA_def by auto
    then show ?thesis by simp
  next
    case B
    then have "phaseB s'" using assms(2,3,5) pend unfolding phaseB_def by auto
    then show ?thesis by simp
  next
    case C
    then have "phaseC s'" using assms(2,3,5) pend unfolding phaseC_def by auto
    then show ?thesis by simp
  qed
  with clock show ?thesis by (simp add: start_inv_def)
qed

lemma start_inv_TriggerEnter:
  assumes "start_inv s"
  shows "start_inv (step s (TriggerEnter t))"
proof (cases "can_advance s t")
  case False
  then show ?thesis using assms by simp
next
  case True
  note clock = can_advance_clock [OF True]
  show ?thesis
  proof (cases "trigger s")
    case None
    then show ?thesis using assms True by simp
  next
    case (Some c)
    let ?s' = "s\<lparr>now := t, trigger := None, trace := trace s @ [TriggerFired t]\<rparr>"
    have st: "step s (TriggerEnter t) = onEnter c ?s'" using True Some by simp
    from assms Some have "phaseA s \<or> phaseC s" by (auto simp: start_inv_def phaseB_def)
    then show ?thesis
    proof
      assume A: "phaseA s"
      then have c: "\<not> c" using Some by (simp add: phaseA_def)
      have "phaseB (onEnter c ?s')"
        using A c by (simp add: phaseA_def phaseB_def onEnter_def setTimeout_def pendingStartDues_def)
      moreover have "clock_ok (onEnter c ?s')"
        using clock c by (simp add: clock_ok_def onEnter_def setTimeout_def)
      ultimately show ?thesis unfolding st start_inv_def by simp
    next
      assume C: "phaseC s"
      then have c: "c" using Some by (simp add: phaseC_def)
      have "phaseC (onEnter c ?s')"
        using C c by (simp add: phaseC_def onEnter_def pendingStartDues_def)
      moreover have "clock_ok (onEnter c ?s')"
        using clock c by (simp add: clock_ok_def onEnter_def)
      ultimately show ?thesis unfolding st start_inv_def by simp
    qed
  qed
qed

lemma start_inv_TimerFires:
  assumes "start_inv s"
  shows "start_inv (step s TimerFires)"
proof (cases "pop_timer (timers s)")
  case None
  then show ?thesis using assms by simp
next
  case (Some p)
  obtain x rest where p: "p = (x, rest)" by (cases p)
  from pop_timer_split [of "timers s" x rest] Some p obtain ys zs where
    parts: "timers s = ys @ x # zs" "rest = ys @ zs" "\<forall>y\<in>set (timers s). fst x \<le> fst y"
    by auto
  have now_le: "now s \<le> fst x" using assms parts(1) by (simp add: start_inv_def clock_ok_def)
  let ?s' = "s\<lparr>now := fst x, timers := rest\<rparr>"
  have st: "step s TimerFires = runTimer (snd x) ?s'" using Some p now_le by simp
  have now': "now ?s' = fst x" by simp
  have rest_clock: "list_all (\<lambda>y. fst x \<le> fst y) rest"
    using parts by (auto simp: list_all_iff)
  show ?thesis
  proof (cases "snd x")
    case (StartCounter i)
    have pend: "pendingStartDues ?s' = pendingStartDues s"
      using parts StartCounter by (simp add: pendingStartDues_def)
    have "clock_ok (startCounter i ?s')"
      using rest_clock now' by (simp add: clock_ok_def startCounter_keeps)
    moreover have "phaseA (startCounter i ?s') \<or> phaseB (startCounter i ?s') \<or> phaseC (startCounter i ?s')"
      using assms pend
      by (simp add: start_inv_def phaseA_def phaseB_def phaseC_def pendingStartDues_def startCounter_keeps)
    ultimately show ?thesis unfolding st StartCounter start_inv_def by simp
  next
    case StartCounters
    have px: "pendingStartDues s
                = map fst (filter (\<lambda>y. snd y = StartCounters) ys) @ fst x
                    # map fst (filter (\<lambda>y. snd y = StartCounters) zs)"
      using parts StartCounters by (simp add: pendingStartDues_def)
    then have B: "phaseB s" using assms by (auto simp: start_inv_def phaseA_def phaseC_def)
    from B px have one: "map fst (filter (\<lambda>y. snd y = StartCounters) ys) @ fst x
                    # map fst (filter (\<lambda>y. snd y = StartCounters) zs)
                 = [hd (triggerFirings (trace s)) + 200]"
      by (simp add: phaseB_def)
    then have front: "map fst (filter (\<lambda>y. snd y = StartCounters) ys) = []"
      by (cases "map fst (filter (\<lambda>y. snd y = StartCounters) ys)") simp_all
    with one have due: "fst x = hd (triggerFirings (trace s)) + 200"
      and post: "map fst (filter (\<lambda>y. snd y = StartCounters) zs) = []"
      by simp_all
    have none: "filter (\<lambda>y. snd y = StartCounters) rest = []"
      using front post by (simp add: parts(2))
    obtain "is" where tm: "timers (startCounters ?s')
        = rest @ map (\<lambda>index. (fst x + real index * 80, StartCounter index)) is"
      using startCounters_keeps(3) [of ?s'] by auto
    have "pendingStartDues (startCounters ?s') = []"
      using none by (simp add: pendingStartDues_def tm filter_map comp_def)
    moreover have "counterStarts (trace (startCounters ?s')) = [hd (triggerFirings (trace s)) + 200]"
      using B due by (simp add: startCounters_keeps phaseB_def)
    moreover have "triggerFirings (trace (startCounters ?s')) = triggerFirings (trace s)"
      by (simp add: startCounters_keeps)
    moreover have "trigger (startCounters ?s') \<noteq> Some False"
      using startCounters_keeps(4) [of ?s'] B by (auto simp: phaseB_def)
    ultimately have "phaseC (startCounters ?s')" using B by (simp add: phaseC_def phaseB_def)
    moreover have "clock_ok (startCounters ?s')"
      using rest_clock
      by (auto simp: clock_ok_def tm startCounters_keeps list_all_iff)
    ultimately show ?thesis unfolding st StartCounters start_inv_def by simp
  qed
qed

lemma start_inv_step:
  assumes "start_inv s"
  shows "start_inv (step s ev)"
proof (cases ev)
  case (TriggerEnter t)
  then show ?thesis using start_inv_TriggerEnter [OF assms] by simp
next
  case TimerFires
  then show ?thesis using start_inv_TimerFires [OF assms] by simp
next
  case (Frame t)
  show ?thesis
  proof (cases "can_advance s t")
    case True
    have "start_inv (runFrame t s)"
      by (rule start_inv_cong [OF assms])
        (use can_advance_clock [OF True] in \<open>simp_all add: runFrame_keeps\<close>)
    then show ?thesis using True Frame by simp
  next
    case False
    then show ?thesis using assms Frame by simp
  qed
next
  case (MouseEnter i)
  have "start_inv (handleMouseEnter i s)"
    by (rule start_inv_cong [OF assms])
      (use assms in \<open>simp_all add: handleMouseEnter_def start_inv_def clock_ok_def\<close>)
  then show ?thesis using assms MouseEnter by simp
next
  case (MouseLeave i)
  have "start_inv (handleMouseLeave s)"
    by (rule start_inv_cong [OF assms])
      (use assms in \<open>simp_all add: handleMouseLeave_def start_inv_def clock_ok_def\<close>)
  then show ?thesis using assms MouseLeave by simp
next
  case (Unmount t)
  show ?thesis
  proof (cases "can_advance s t \<and> mounted s")
    case True
    have "start_inv (unmount (s\<lparr>now := t\<rparr>))"
      by (rule start_inv_cong [OF assms])
        (use can_advance_clock [of s t] True in \<open>simp_all add: unmount_keeps\<close>)
    then show ?thesis using True Unmount by simp
  next
    case False
    then show ?thesis using assms Unmount by auto
  qed
qed

lemma start_inv_mount: "start_inv (mount e)"
  by (simp add: start_inv_def clock_ok_def phaseA_def pendingStartDues_def mount_def useGSAP_effect_def)

lemma start_inv_run: "start_inv s \<Longrightarrow> start_inv (run s evs)"
  unfolding run_def by (induction evs arbitrary: s) (simp_all add: start_inv_step)

text \<open>
  Claim C3. In every run of a mounted component the callback that starts the counters
  runs at most once, and when it runs the clock is exactly 200ms after the first firing
  of the card-group trigger. A later firing, by the trigger created again when
  \<open>hasAnimated\<close> changes, schedules nothing: at every point of the run the starts that
  have run and the start timers still pending are at most one together.
\<close>

theorem counter_start_at_most_once:
  "length (counterStarts (trace (run (mount e) evs))) + length (pendingStartDues (run (mount e) evs)) \<le> 1
   \<and> (\<forall>c\<in>set (counterStarts (trace (run (mount e) evs))).
         triggerFirings (trace (run (mount e) evs)) \<noteq> []
         \<and> c = hd (triggerFirings (trace (run (mount e) evs))) + 200)"
  using start_inv_run [OF start_inv_mount, of e evs]
  unfolding start_inv_def phaseA_def phaseB_def phaseC_def by auto

text \<open>
  An instance: the trigger fires at 50 and, created again after the start, at 300; the
  counters are started once, at 250.
\<close>

theorem counter_start_at_most_once_witness:
  "triggerFirings (trace (run (mount desktopEnv)
      [TriggerEnter 50, TimerFires, TimerFires, TriggerEnter 300, TimerFires])) = [50, 300]
   \<and> counterStarts (trace (run (mount desktopEnv)
      [TriggerEnter 50, TimerFires, TimerFires, TriggerEnter 300, TimerFires])) = [250]
   \<and> pendingStartDues (run (mount desktopEnv)
      [TriggerEnter 50, TimerFires, TimerFires, TriggerEnter 300, TimerFires]) = []
   \<and> pendingStartDues (run (mount desktopEnv) [TriggerEnter 50]) = [250]"
proof -
  have "triggerFirings (trace (run (mount desktopEnv)
      [TriggerEnter 50, TimerFires, TimerFires, TriggerEnter 300, TimerFires])) = [50, 300]
   \<and> counterStarts (trace (run (mount desktopEnv)
      [TriggerEnter 50, TimerFires, TimerFires, TriggerEnter 300, TimerFires])) = [250]
   \<and> pendingStartDues (run (mount desktopEnv)
      [TriggerEnter 50, TimerFires, TimerFires, TriggerEnter 300, TimerFires]) = []
   \<and> pendingStartDues (run (mount desktopEnv) [TriggerEnter 50]) = [250]"
    by code_simp
  then show ?thesis
    using counter_start_at_most_once [of desktopEnv
        "[TriggerEnter 50, TimerFires, TimerFires, TriggerEnter 300, TimerFires]"]
    by simp
qed

section \<open>Teardown\<close>

text \<open>
  Unmounting cancels the one frame whose handle the shared ref holds and leaves every
  other pending frame and every pending timer in place.
\<close>

theorem unmount_cancels_ref_frame_only:
  "frames (unmount s)
     = (case animationFrameRef s of
          None \<Rightarrow> frames s
        | Some h \<Rightarrow> filter (\<lambda>f. fst f \<noteq> h) (frames s))
   \<and> timers (unmount s) = timers s"
  by (simp add: unmount_def useGSAP_cleanup_def useEffect_cleanup_def cancelAnimationFrame_def
      split: option.splits)

text \<open>
  Claim C1 does not hold of the code. The trigger fires at 0, the four counters start at
  200, 280, 360 and 440, and frames run at 240, 320, 400 and 500. Four steps are then
  pending, with handles 11 to 14, and the ref holds 14, the handle written last.
  Unmounting at 520 cancels that step only: the steps of the first three counters stay
  pending, and the frame at 560 runs them and writes to their elements.
\<close>

theorem unmount_cancels_one_step_only:
  "map fst (frames (run (mount desktopEnv)
      [TriggerEnter 0, TimerFires, TimerFires, Frame 240, TimerFires, Frame 320, TimerFires,
       Frame 400, TimerFires, Frame 500])) = [11, 12, 13, 14]
   \<and> animationFrameRef (run (mount desktopEnv)
      [TriggerEnter 0, TimerFires, TimerFires, Frame 240, TimerFires, Frame 320, TimerFires,
       Frame 400, TimerFires, Frame 500]) = Some 14
   \<and> map fst (frames (run (mount desktopEnv)
      [TriggerEnter 0, TimerFires, TimerFires, Frame 240, TimerFires, Frame 320, TimerFires,
       Frame 400, TimerFires, Frame 500, Unmount 520])) = [11, 12, 13]
   \<and> writesAfterUnmount (trace (run (mount desktopEnv)
      [TriggerEnter 0, TimerFires, TimerFires, Frame 240, TimerFires, Frame 320, TimerFires,
       Frame 400, TimerFires, Frame 500, Unmount 520, Frame 560]))
     = [Wrote 560 0 (Fin 255), Wrote 560 1 (Fin 39), Wrote 560 2 (Fin 2)]"
  by code_simp

section \<open>Reduced motion and touch devices\<close>

text \<open>
  Claim C4 does not hold of the code. Under \<open>prefers-reduced-motion: reduce\<close> the style
  sheet switches the CSS transition of the counter off, but \<open>animateCounter\<close> does not
  read the preference: the four counters step through intermediate values (375, 65, 4
  and 3 at the frame at 800) before they show their final values.
\<close>

theorem reduced_motion_counter_still_animates:
  "prefersReducedMotion (env (mount reducedMotionEnv))
   \<and> counterTransition (render (mount reducedMotionEnv) 0) = ''none''
   \<and> trace (run (mount reducedMotionEnv)
        [TriggerEnter 0, TimerFires, TimerFires, TimerFires, TimerFires, TimerFires,
         Frame 800, Frame 1700])
     = [TriggerFired 0, CounterStart 200, Wrote 800 0 (Fin 375),
       Wrote 800 1 (Fin 65), Wrote 800 2 (Fin 4), Wrote 800 3 (Fin 3),
       Wrote 1700 0 (Fin 500), Wrote 1700 1 (Fin 97), Wrote 1700 2 (Fin 8),
       Wrote 1700 3 (Fin 7)]"
  by code_simp

text \<open>
  Claim C5 does not hold of the code. Where neither \<open>hover: hover\<close> nor
  \<open>pointer: fine\<close> holds, the media query keeps the elevation of the hovered card
  away, but the scale classes of the icon, the number and the accent line follow
  \<open>hoveredCard\<close> alone: after a pointer-enter on card 1 they are the hover classes.
\<close>

theorem touch_hover_still_scales:
  "\<not> hoverHover touchEnv \<and> \<not> pointerFine touchEnv
   \<and> hoveredCard (run (mount touchEnv) [MouseEnter 1]) = Some 1
   \<and> cardTransform (render (run (mount touchEnv) [MouseEnter 1]) 1) = ''none''
   \<and> iconClass (render (run (mount touchEnv) [MouseEnter 1]) 1) = ''scale-105''
   \<and> numberClass (render (run (mount touchEnv) [MouseEnter 1]) 1) = ''scale-105''
   \<and> accentClass (render (run (mount touchEnv) [MouseEnter 1]) 1) = ''opacity-100 scale-x-105''"
  by code_simp

section \<open>What the component displays\<close>

text \<open>
  Every pending step of a run belongs to one of the four counters, was started not
  after the current time with the duration 1200 and the number of its stat, and every
  value written so far is an integer between 0 and that number.
\<close>

lemma statsData_numbers:
  assumes "i < length statsData"
  shows "\<exists>f::int. 0 \<le> f \<and> number (statsData ! i) = Fin (of_int f)"
proof -
  from assms have "i = 0 \<or> i = 1 \<or> i = 2 \<or> i = 3" by (auto simp: statsData_def)
  then show ?thesis
  proof (elim disjE)
    assume "i = 0" then show ?thesis by (intro exI [of _ 500]) (simp add: statsData_def)
  next
    assume "i = 1" then show ?thesis by (intro exI [of _ 97]) (simp add: statsData_def)
  next
    assume "i = 2" then show ?thesis by (intro exI [of _ 8]) (simp add: statsData_def)
  next
    assume "i = 3" then show ?thesis by (intro exI [of _ 7]) (simp add: statsData_def)
  qed
qed

lemma frame_ok_later: "frame_ok t cb \<Longrightarrow> t \<le> t' \<Longrightarrow> frame_ok t' cb"
  by (auto simp: frame_ok_def split: jsnum.splits)

lemma frame_ok_write:
  assumes "frame_ok t cb"
  shows "write_ok (Wrote t' (element cb)
           (currentValue (finalNumber cb) (progress (startTime cb) (duration cb) (Fin t))))"
proof -
  from assms obtain t0 where t0: "startTime cb = Fin t0" "t0 \<le> t"
    by (auto simp: frame_ok_def split: jsnum.splits)
  from assms have el: "element cb < length statsData" and d: "duration cb = Fin 1200"
    and fin: "finalNumber cb = number (statsData ! element cb)"
    by (simp_all add: frame_ok_def)
  from statsData_numbers [OF el] obtain f :: int where
    f: "0 \<le> f" "number (statsData ! element cb) = Fin (of_int f)" by blast
  have "currentValue (finalNumber cb) (progress (startTime cb) (duration cb) (Fin t))
          = Fin (of_int (stepValue (of_int f) t0 1200 t))"
    using stepValue_code [of 1200 "of_int f" t0 t] by (simp add: fin f d t0)
  moreover have "0 \<le> stepValue (of_int f) t0 1200 t" "stepValue (of_int f) t0 1200 t \<le> f"
    using stepValue_range [of "of_int f" 1200 t0 t] f(1) t0(2) by simp_all
  ultimately show ?thesis using el f(2) by simp
qed

lemma animate_display_inv:
  assumes "display_inv s" "frame_ok (now s) cb"
  shows "display_inv (animate cb (Fin (now s)) s)"
proof -
  have "write_ok (Wrote (now s) (element cb)
           (currentValue (finalNumber cb) (progress (startTime cb) (duration cb) (Fin (now s)))))"
    using frame_ok_write [OF assms(2)] .
  then show ?thesis
    using assms by (simp add: display_inv_def animate_def requestAnimationFrame_def Let_def)
qed

lemma foldl_animate_display_inv:
  assumes "display_inv s" "list_all (\<lambda>f. frame_ok (now s) (snd f)) fs"
  shows "display_inv (foldl (\<lambda>s' f. animate (snd f) (Fin (now s)) s') s fs)"
  using assms
proof (induction fs arbitrary: s)
  case Nil
  then show ?case by simp
next
  case (Cons f fs)
  let ?s1 = "animate (snd f) (Fin (now s)) s"
  have n: "now ?s1 = now s" by (simp add: animate_keeps)
  have "display_inv ?s1" using Cons.prems by (intro animate_display_inv) simp_all
  moreover have "list_all (\<lambda>f. frame_ok (now ?s1) (snd f)) fs" using Cons.prems n by simp
  ultimately have "display_inv (foldl (\<lambda>s' f. animate (snd f) (Fin (now ?s1)) s') ?s1 fs)"
    by (rule Cons.IH)
  then show ?case by (simp add: n)
qed

lemma runFrame_display_inv:
  assumes "display_inv s" "now s \<le> t"
  shows "display_inv (runFrame t s)"
proof -
  let ?s0 = "s\<lparr>now := t, frames := []\<rparr>"
  have "display_inv ?s0" using assms by (simp add: display_inv_def)
  moreover have "list_all (\<lambda>f. frame_ok (now ?s0) (snd f)) (frames s)"
    using assms by (auto simp: display_inv_def list_all_iff intro: frame_ok_later)
  ultimately have "display_inv (foldl (\<lambda>s' f. animate (snd f) (Fin (now ?s0)) s') ?s0 (frames s))"
    by (rule foldl_animate_display_inv)
  then show ?thesis by (simp add: runFrame_def)
qed

lemma display_inv_advance:
  "display_inv s \<Longrightarrow> now s \<le> t \<Longrightarrow> display_inv (s\<lparr>now := t\<rparr>)"
  by (auto simp: display_inv_def list_all_iff intro: frame_ok_later)

lemma useEffect_cleanup_display_inv: "display_inv s \<Longrightarrow> display_inv (useEffect_cleanup s)"
  by (auto simp: display_inv_def useEffect_cleanup_def cancelAnimationFrame_def list_all_iff
      split: option.splits)

lemma useGSAP_cleanup_display_inv: "display_inv s \<Longrightarrow> display_inv (useGSAP_cleanup s)"
  unfolding useGSAP_cleanup_def
  by (rule useEffect_cleanup_display_inv) (simp add: display_inv_def)

lemma unmount_display_inv: "display_inv s \<Longrightarrow> display_inv (unmount s)"
  using useEffect_cleanup_display_inv [OF useGSAP_cleanup_display_inv, of s]
  by (simp add: unmount_def display_inv_def)

lemma setHasAnimated_display_inv: "display_inv s \<Longrightarrow> display_inv (setHasAnimated b s)"
proof -
  assume a: "display_inv s"
  then have "display_inv (s\<lparr>hasAnimated := b\<rparr>)" by (simp add: display_inv_def)
  then have "display_inv (useGSAP_cleanup (s\<lparr>hasAnimated := b\<rparr>))"
    by (rule useGSAP_cleanup_display_inv)
  then show ?thesis using a by (simp add: setHasAnimated_def useGSAP_effect_def display_inv_def)
qed

lemma startCounters_display_inv:
  assumes "display_inv s"
  shows "display_inv (startCounters s)"
proof -
  let ?is = "if mounted s then [0..<length statsData] else []"
  let ?s1 = "foldl (\<lambda>s' index. setTimeout (StartCounter index) (real index * 80) s')
               (s\<lparr>trace := trace s @ [CounterStart (now s)]\<rparr>) ?is"
  have "display_inv ?s1"
    using assms
    by (simp add: display_inv_def foldl_setTimeout_keeps foldl_setTimeout_frames list_all_iff)
      auto
  then show ?thesis unfolding startCounters_def Let_def by (rule setHasAnimated_display_inv)
qed

lemma startCounter_display_inv:
  "display_inv s \<Longrightarrow> i < length statsData \<Longrightarrow> display_inv (startCounter i s)"
  by (simp add: display_inv_def startCounter_def animateCounter_def requestAnimationFrame_def
      Let_def frame_ok_def)

lemma step_display_inv:
  assumes "display_inv s"
  shows "display_inv (step s ev)"
proof (cases ev)
  case (TriggerEnter t)
  have "display_inv (onEnter c (s\<lparr>now := t, trigger := None, trace := trace s @ [TriggerFired t]\<rparr>))"
    if "now s \<le> t" for c
    using display_inv_advance [OF assms that]
    by (simp add: display_inv_def onEnter_def setTimeout_def)
  then show ?thesis using assms TriggerEnter by (simp add: can_advance_def split: option.splits)
next
  case TimerFires
  show ?thesis
  proof (cases "pop_timer (timers s)")
    case None
    then show ?thesis using assms TimerFires by simp
  next
    case (Some p)
    obtain x rest where p: "p = (x, rest)" by (cases p)
    from pop_timer_split [of "timers s" x rest] Some p obtain ys zs where
      parts: "timers s = ys @ x # zs" "rest = ys @ zs" by auto
    let ?s' = "s\<lparr>now := max (now s) (fst x), timers := rest\<rparr>"
    have inv': "display_inv ?s'"
      using display_inv_advance [OF assms, of "max (now s) (fst x)"] assms parts
      by (simp add: display_inv_def)
    have x: "timer_ok x" using assms parts by (simp add: display_inv_def)
    have "display_inv (runTimer (snd x) ?s')"
    proof (cases "snd x")
      case StartCounters
      then show ?thesis using startCounters_display_inv [OF inv'] by simp
    next
      case (StartCounter i)
      then have "i < length statsData" using x by (cases x) simp
      then show ?thesis using startCounter_display_inv [OF inv'] StartCounter by simp
    qed
    then show ?thesis using TimerFires Some p by simp
  qed
next
  case (Frame t)
  then show ?thesis using assms by (simp add: runFrame_display_inv can_advance_def)
next
  case (MouseEnter i)
  then show ?thesis using assms by (simp add: display_inv_def handleMouseEnter_def)
next
  case (MouseLeave i)
  then show ?thesis using assms by (simp add: display_inv_def handleMouseLeave_def)
next
  case (Unmount t)
  have "display_inv (unmount (s\<lparr>now := t\<rparr>))" if "now s \<le> t"
    by (rule unmount_display_inv) (rule display_inv_advance [OF assms that])
  then show ?thesis using assms Unmount by (simp add: can_advance_def)
qed

lemma run_display_inv: "display_inv s \<Longrightarrow> display_inv (run s evs)"
  unfolding run_def by (induction evs arbitrary: s) (simp_all add: step_display_inv)

lemma mount_display_inv: "display_inv (mount e)"
  by (simp add: display_inv_def mount_def useGSAP_effect_def)

text \<open>
  In every run of the component, each value a counter step writes is an integer between
  0 and the configured number of its stat: with the static data the display never shows
  NaN or a negative number.
\<close>

theorem component_displays_valid_values:
  assumes "Wrote t i v \<in> set (trace (run (mount e) evs))"
  shows "i < length statsData
       \<and> (\<exists>n f::int. v = Fin (of_int n) \<and> number (statsData ! i) = Fin (of_int f) \<and> 0 \<le> n \<and> n \<le> f)"
proof -
  have "write_ok (Wrote t i v)"
    using run_display_inv [OF mount_display_inv, of e evs] assms
    by (simp add: display_inv_def list_all_iff)
  then obtain x where x: "v = Fin x" "i < length statsData" "0 \<le> x" "of_int \<lfloor>x\<rfloor> = x"
    and le: "(case number (statsData ! i) of Fin f \<Rightarrow> x \<le> f | _ \<Rightarrow> False)"
    by (cases v) simp_all
  from statsData_numbers [OF x(2)] obtain f :: int where
    f: "0 \<le> f" "number (statsData ! i) = Fin (of_int f)" by blast
  have "v = Fin (of_int \<lfloor>x\<rfloor>)" unfolding x(4) by (rule x(1))
  moreover have "0 \<le> \<lfloor>x\<rfloor>" using x(3) by simp
  moreover have "\<lfloor>x\<rfloor> \<le> f" using le f(2) by (simp add: floor_le_iff)
  ultimately show ?thesis using x(2) f(2) by blast
qed

theorem component_displays_valid_values_witness:
  "Wrote 800 1 (Fin 65) \<in> set (trace (run (mount desktopEnv)
      [TriggerEnter 0, TimerFires, TimerFires, TimerFires, TimerFires, TimerFires, Frame 800]))
   \<and> (1::nat) < length statsData \<and> number (statsData ! 1) = Fin 97"
proof -
  have "trace (run (mount desktopEnv)
      [TriggerEnter 0, TimerFires, TimerFires, TimerFires, TimerFires, TimerFires, Frame 800])
    = [TriggerFired 0, CounterStart 200, Wrote 800 0 (Fin 375), Wrote 800 1 (Fin 65),
       Wrote 800 2 (Fin 4), Wrote 800 3 (Fin 3)]"
    by code_simp
  then have w: "Wrote 800 1 (Fin 65) \<in> set (trace (run (mount desktopEnv)
      [TriggerEnter 0, TimerFires, TimerFires, TimerFires, TimerFires, TimerFires, Frame 800]))"
    by simp
  show ?thesis
    using w component_displays_valid_values [OF w] by (simp add: statsData_def)
qed

text \<open>
  The scenario of the specification: after the trigger fires, the first counter starts
  at 200, and the frame 1200ms later shows 500 beside the suffix \<open>+\<close>; that step asks
  for no further frame.
\<close>

theorem scenario_first_counter_reaches_500:
  "textContent (run (mount desktopEnv) [TriggerEnter 0, TimerFires, TimerFires, Frame 250,
      TimerFires, TimerFires, TimerFires, Frame 1400]) ! 0 = Fin 500
   \<and> suffix (statsData ! 0) = ''+''
   \<and> map (\<lambda>f. element (snd f)) (frames (run (mount desktopEnv)
      [TriggerEnter 0, TimerFires, TimerFires, Frame 250, TimerFires, TimerFires, TimerFires,
       Frame 1400])) = [1, 2, 3]"
  by code_simp

text \<open>
  The ease-out-quadratic curve maps progress 0 to 0 and progress 1 to 1.
\<close>

theorem eased_progress_boundaries:
  "easedProgress (Fin 0) = Fin 0 \<and> easedProgress (Fin 1) = Fin 1"
  by (simp add: easedProgress_def js_sub_def)

text \<open>
  The hover state is exclusive: after a pointer-enter on card \<open>i\<close> and then on card
  \<open>j\<close>, card \<open>j\<close> is the hovered card and no other.
\<close>

theorem hover_is_exclusive:
  "isHovered (handleMouseEnter j (handleMouseEnter i s)) k = (k = j)"
  by (auto simp: isHovered_def handleMouseEnter_def)

end
